theory Spec2Isabelle
  imports Main
begin

section \<open>Library operations the log analyzer relies on\<close>

text \<open>
  The analyzer of \<^verbatim>\<open>src/screens/log_analytics_screen.py\<close> works on Python strings.
  A string is a list of characters here, a character being a code point below 256; the
  text of a file is the character stream that
  \<^verbatim>\<open>open(path, 'r', encoding='utf-8', errors='ignore')\<close> delivers, after decoding and
  after the translation of line ends.
\<close>

definition newline :: char where
  "newline = CHR 0x0A"

text \<open>\<^verbatim>\<open>s.split(sep)\<close> for a one-character separator: never the empty list.\<close>

fun split_on :: "'a \<Rightarrow> 'a list \<Rightarrow> 'a list list" where
  "split_on d [] = [[]]"
| "split_on d (c # cs) =
     (let rest = split_on d cs
      in if c = d then [] # rest else (c # hd rest) # tl rest)"

text \<open>\<^verbatim>\<open>sep.join(parts)\<close>, used by the result display and to state what \<open>split_on\<close> is.\<close>

fun join :: "'a list \<Rightarrow> 'a list list \<Rightarrow> 'a list" where
  "join sep [] = []"
| "join sep [p] = p"
| "join sep (p # q # ps) = p @ sep @ join sep (q # ps)"

text \<open>
  \<^verbatim>\<open>str.lower()\<close>. A character of the model is a code point below 256. Among these
  \<^verbatim>\<open>str.lower()\<close> changes the letters \<open>A\<close> to \<open>Z\<close> (65 to 90) and the capital letters of
  the Latin-1 block, U+00C0 to U+00DE without the multiplication sign U+00D7 (192 to 222
  without 215); each goes to the code point 32 above it.
\<close>

definition lower_char :: "char \<Rightarrow> char" where
  "lower_char c =
     (let n = (of_char c :: nat)
      in if (65 \<le> n \<and> n \<le> 90) \<or> (192 \<le> n \<and> n \<le> 214) \<or> (216 \<le> n \<and> n \<le> 222)
         then char_of (n + 32) else c)"

definition lower :: "string \<Rightarrow> string" where
  "lower s = map lower_char s"

text \<open>\<^verbatim>\<open>p in s\<close> on strings: \<open>p\<close> occurs in \<open>s\<close> as a contiguous run.\<close>

fun starts_with :: "'a list \<Rightarrow> 'a list \<Rightarrow> bool" where
  "starts_with [] s = True"
| "starts_with (a # p) [] = False"
| "starts_with (a # p) (b # s) = (a = b \<and> starts_with p s)"

fun str_contains :: "'a list \<Rightarrow> 'a list \<Rightarrow> bool" where
  "str_contains p [] = (p = [])"
| "str_contains p (c # s) = (starts_with p (c # s) \<or> str_contains p s)"

text \<open>\<^verbatim>\<open>str(n)\<close> for a non-negative integer: its decimal digits.\<close>

definition digit_char :: "nat \<Rightarrow> char" where
  "digit_char d = char_of (48 + d)"

function str_nat :: "nat \<Rightarrow> string" where
  "str_nat n = (if n < 10 then [digit_char n] else str_nat (n div 10) @ [digit_char (n mod 10)])"
  by pat_completeness auto
termination
  by (relation "measure id") auto

declare str_nat.simps [simp del]

text \<open>
  A compiled pattern of Python's \<^verbatim>\<open>re\<close> module is taken as the relation it decides:
  \<open>rx line i j\<close> holds when the pattern matches the slice \<open>line[i:j]\<close> of \<open>line\<close>
  (the whole line is given, since anchors and word boundaries look around the slice).
  \<^verbatim>\<open>Pattern.search\<close> tries every start position, \<^verbatim>\<open>Pattern.fullmatch\<close> only the
  whole line. \<^verbatim>\<open>re.compile\<close> is a parameter \<open>rc\<close> of the model: \<open>None\<close> stands for
  \<^verbatim>\<open>re.error\<close>.
\<close>

type_synonym compiled_pattern = "string \<Rightarrow> nat \<Rightarrow> nat \<Rightarrow> bool"

type_synonym re_compile = "string \<Rightarrow> compiled_pattern option"

definition re_search :: "compiled_pattern \<Rightarrow> string \<Rightarrow> bool" where
  "re_search rx line =
     list_ex (\<lambda>i. list_ex (\<lambda>j. rx line i j) [i..<Suc (length line)]) [0..<Suc (length line)]"


section \<open>Files, directories and the stop flag\<close>

datatype py_error = ReError | FileNotFoundError | PermissionError | IsADirectoryError | OSError

text \<open>
  What a path resolves to. A regular file has its decoded text and, when reading it fails
  part-way, the number of \<^verbatim>\<open>read\<close> calls that succeed before one raises. \<open>NoAccess\<close> is
  a file that exists and cannot be opened. A directory lists its entries in the order the
  operating system enumerates them.
\<close>

datatype node =
    RegularFile string "nat option"
  | NoAccess
  | Directory "(string \<times> node) list"

type_synonym filesystem = "string \<Rightarrow> node option"

record file_handle =
  remaining :: string
  reads_left :: "nat option"

definition open_file :: "node option \<Rightarrow> py_error + file_handle" where
  "open_file nd =
     (case nd of
        None \<Rightarrow> Inl FileNotFoundError
      | Some NoAccess \<Rightarrow> Inl PermissionError
      | Some (Directory es) \<Rightarrow> Inl IsADirectoryError
      | Some (RegularFile text fail) \<Rightarrow> Inr \<lparr>remaining = text, reads_left = fail\<rparr>)"

text \<open>\<^verbatim>\<open>f.read(size)\<close>: the next \<open>size\<close> characters, fewer at the end, \<open>''\<close> after it.\<close>

definition read_chunk :: "nat \<Rightarrow> file_handle \<Rightarrow> py_error + (string \<times> file_handle)" where
  "read_chunk csize h =
     (case reads_left h of
        Some 0 \<Rightarrow> Inl OSError
      | Some (Suc k) \<Rightarrow>
          Inr (take csize (remaining h),
               \<lparr>remaining = drop csize (remaining h), reads_left = Some k\<rparr>)
      | None \<Rightarrow>
          Inr (take csize (remaining h),
               \<lparr>remaining = drop csize (remaining h), reads_left = None\<rparr>))"

text \<open>
  \<^verbatim>\<open>self._running\<close> starts \<open>True\<close>; \<^verbatim>\<open>stop()\<close>, called from the screen's thread, sets it
  to \<open>False\<close> and nothing sets it back. The worker only ever reads the flag, so every
  interleaving is described by how many of its reads still see \<open>True\<close>: \<open>None\<close> when
  \<^verbatim>\<open>stop()\<close> is never called, \<open>Some k\<close> when exactly the first \<open>k\<close> reads see \<open>True\<close>.
\<close>

type_synonym running = "nat option"

fun check_running :: "running \<Rightarrow> bool \<times> running" where
  "check_running None = (True, None)"
| "check_running (Some 0) = (False, Some 0)"
| "check_running (Some (Suc k)) = (True, Some k)"


section \<open>LogAnalyzerThread\<close>

record thread =
  file_path :: string
  pattern :: string
  is_regex :: bool
  is_directory :: bool

datatype matcher = Literal string | Regex compiled_pattern

definition chunk_size :: nat where
  "chunk_size = 1024 * 1024"

text \<open>The test the source makes on each line, for the two kinds of pattern.\<close>

fun line_matches :: "matcher \<Rightarrow> string \<Rightarrow> bool" where
  "line_matches (Regex rx) line = re_search rx line"
| "line_matches (Literal p) line = str_contains (lower p) (lower line)"

definition format_record :: "nat \<Rightarrow> string \<Rightarrow> string" where
  "format_record line_number line = str_nat line_number @ '': '' @ line"

text \<open>The body of \<^verbatim>\<open>for line in lines\<close>, on the pair of line counter and result list.\<close>

definition process_line :: "matcher \<Rightarrow> nat \<times> string list \<Rightarrow> string \<Rightarrow> nat \<times> string list" where
  "process_line m st line =
     (let line_number = fst st + 1
      in (line_number,
          if line_matches m line then snd st @ [format_record line_number line] else snd st))"

definition process_lines :: "matcher \<Rightarrow> nat \<times> string list \<Rightarrow> string list \<Rightarrow> nat \<times> string list" where
  "process_lines m st lines = foldl (process_line m) st lines"

text \<open>
  The \<^verbatim>\<open>while self._running\<close> loop of \<^verbatim>\<open>_analyze_file\<close>. It returns the exception that
  left it (if any), the flag reads still to come, the carry buffer, the line counter and
  the results.
\<close>

function analyze_loop ::
  "nat \<Rightarrow> matcher \<Rightarrow> file_handle \<Rightarrow> running \<Rightarrow> string \<Rightarrow> nat \<Rightarrow> string list
   \<Rightarrow> py_error option \<times> running \<times> string \<times> nat \<times> string list" where
  "analyze_loop csize m h run buffer line_number results =
     (if \<not> fst (check_running run)
      then (None, snd (check_running run), buffer, line_number, results)
      else
        (case read_chunk csize h of
           Inl e \<Rightarrow> (Some e, snd (check_running run), buffer, line_number, results)
         | Inr (chunk, h') \<Rightarrow>
             if chunk = [] then (None, snd (check_running run), buffer, line_number, results)
             else
               (let lines = split_on newline (buffer @ chunk);
                    st = process_lines m (line_number, results) (butlast lines)
                in analyze_loop csize m h' (snd (check_running run)) (last lines)
                     (fst st) (snd st))))"
  by pat_completeness auto
termination
proof (relation "measure (\<lambda>(csize, m, h, run, buffer, line_number, results). length (remaining h))")
  show "wf (measure (\<lambda>(csize, m, h, run, buffer, line_number, results). length (remaining h)))"
    by simp
next
  fix csize :: nat and m :: matcher and h :: file_handle and run :: running
    and buffer :: string and line_number :: nat and results :: "string list"
    and x2 :: "string \<times> file_handle" and chunk :: string and h' :: file_handle
    and lines st
  assume "read_chunk csize h = Inr x2" and "(chunk, h') = x2" and "chunk \<noteq> []"
  then have "chunk = take csize (remaining h)" and "remaining h' = drop csize (remaining h)"
    by (auto simp: read_chunk_def split: option.splits nat.splits)
  with \<open>chunk \<noteq> []\<close> have "length (remaining h') < length (remaining h)"
    by (cases "remaining h") (auto simp: take_eq_Nil)
  then show "((csize, m, h', snd (check_running run), last lines, fst st, snd st),
              (csize, m, h, run, buffer, line_number, results))
             \<in> measure (\<lambda>(csize, m, h, run, buffer, line_number, results). length (remaining h))"
    by simp
qed

declare analyze_loop.simps [simp del]

text \<open>
  \<^verbatim>\<open>re.compile\<close> runs inside the \<^verbatim>\<open>try\<close> of \<^verbatim>\<open>_analyze_file\<close>, once per file and
  only when \<^verbatim>\<open>is_regex\<close> is set.
\<close>

definition make_matcher :: "re_compile \<Rightarrow> thread \<Rightarrow> py_error + matcher" where
  "make_matcher rc th =
     (if is_regex th
      then (case rc (pattern th) of None \<Rightarrow> Inl ReError | Some rx \<Rightarrow> Inr (Regex rx))
      else Inr (Literal (pattern th)))"

text \<open>
  \<^verbatim>\<open>_analyze_file\<close>, with the local \<^verbatim>\<open>chunk_size\<close> as the parameter \<open>csize\<close>. Every
  exception is caught by the \<^verbatim>\<open>except Exception\<close> of the function, which logs it and
  falls through to \<^verbatim>\<open>return results\<close>. The second component is the stop flag's reads
  still to come.
\<close>

definition analyze_file ::
  "re_compile \<Rightarrow> nat \<Rightarrow> thread \<Rightarrow> node option \<Rightarrow> running \<Rightarrow> string list \<times> running" where
  "analyze_file rc csize th nd run =
     (case make_matcher rc th of
        Inl e \<Rightarrow> ([], run)
      | Inr m \<Rightarrow>
          (case open_file nd of
             Inl e \<Rightarrow> ([], run)
           | Inr h \<Rightarrow>
               (case analyze_loop csize m h run [] 0 [] of
                  (Some e, run', buffer, line_number, results) \<Rightarrow> (results, run')
                | (None, run', buffer, line_number, results) \<Rightarrow>
                    if buffer = [] then (results, run')
                    else if fst (check_running run')
                      then (snd (process_line m (line_number, results) buffer),
                            snd (check_running run'))
                      else (results, snd (check_running run')))))"

text \<open>\<^verbatim>\<open>Path.glob("*" + ext)\<close>: the entries of the directory itself whose name ends in \<open>ext\<close>.\<close>

definition ends_with :: "'a list \<Rightarrow> 'a list \<Rightarrow> bool" where
  "ends_with suffix s = starts_with (rev suffix) (rev s)"

definition glob_ext :: "string \<Rightarrow> node option \<Rightarrow> (string \<times> node) list" where
  "glob_ext ext nd =
     (case nd of
        Some (Directory entries) \<Rightarrow> filter (\<lambda>e. ends_with ext (fst e)) entries
      | _ \<Rightarrow> [])"

definition log_files :: "node option \<Rightarrow> (string \<times> node) list" where
  "log_files nd = glob_ext ''.log'' nd @ glob_ext ''.txt'' nd"

datatype signal = Progress string | Finished "string list"

text \<open>The \<^verbatim>\<open>for log_file in log_files\<close> loop of \<^verbatim>\<open>run\<close>: results, signals emitted, flag reads left.\<close>

fun scan_files ::
  "re_compile \<Rightarrow> nat \<Rightarrow> thread \<Rightarrow> (string \<times> node) list \<Rightarrow> running \<Rightarrow> string list
   \<Rightarrow> string list \<times> signal list \<times> running" where
  "scan_files rc csize th [] run results = (results, [], run)"
| "scan_files rc csize th (log_file # rest) run results =
     (if \<not> fst (check_running run) then (results, [], snd (check_running run))
      else
        (let file_results = analyze_file rc csize th (Some (snd log_file)) (snd (check_running run));
             r = scan_files rc csize th rest (snd file_results) (results @ fst file_results)
         in (fst r, Progress (''Processing '' @ fst log_file @ ''...'') # fst (snd r), snd (snd r))))"

text \<open>
  \<^verbatim>\<open>run\<close>: the signals the thread emits, in order. Nothing in this model raises out of
  \<^verbatim>\<open>_analyze_file\<close> or out of the enumeration, so the outer \<^verbatim>\<open>except\<close> of \<^verbatim>\<open>run\<close> has no
  branch here.
\<close>

definition run_sized :: "re_compile \<Rightarrow> nat \<Rightarrow> filesystem \<Rightarrow> thread \<Rightarrow> running \<Rightarrow> signal list" where
  "run_sized rc csize fs th run =
     (if is_directory th
      then (let r = scan_files rc csize th (log_files (fs (file_path th))) run []
            in fst (snd r) @ [Finished (fst r)])
      else [Progress ''Processing file...'',
            Finished (fst (analyze_file rc csize th (fs (file_path th)) run))])"

definition run :: "re_compile \<Rightarrow> filesystem \<Rightarrow> thread \<Rightarrow> running \<Rightarrow> signal list" where
  "run rc fs th r = run_sized rc chunk_size fs th r"

section \<open>LogAnalyticsScreen\<close>

record screen =
  path_input :: string
  pattern_input :: string
  regex_checkbox :: bool
  status_label :: string
  results_text :: string
  search_enabled :: bool
  cancel_enabled :: bool
  analyzer_thread :: "thread option"

definition path_exists :: "filesystem \<Rightarrow> string \<Rightarrow> bool" where
  "path_exists fs p = (fs p \<noteq> None)"

definition isdir :: "filesystem \<Rightarrow> string \<Rightarrow> bool" where
  "isdir fs p = (case fs p of Some (Directory entries) \<Rightarrow> True | _ \<Rightarrow> False)"

text \<open>
  \<^verbatim>\<open>_on_search_clicked\<close>: the screen afterwards, and the thread on which \<^verbatim>\<open>start()\<close> was
  called, if any.
\<close>

definition on_search_clicked :: "filesystem \<Rightarrow> screen \<Rightarrow> screen \<times> thread option" where
  "on_search_clicked fs scr =
     (if path_input scr = [] \<or> pattern_input scr = []
      then (scr\<lparr>status_label := ''Error: Please select a file/directory and enter a pattern''\<rparr>,
            None)
      else if \<not> path_exists fs (path_input scr)
      then (scr\<lparr>status_label := ''Error: Path does not exist''\<rparr>, None)
      else
        (let th = \<lparr>file_path = path_input scr, pattern = pattern_input scr,
                   is_regex = regex_checkbox scr,
                   is_directory = isdir fs (path_input scr)\<rparr>
         in (scr\<lparr>analyzer_thread := Some th, search_enabled := False, cancel_enabled := True,
                 status_label := ''Analyzing...'',
                 results_text := ''Searching...'' @ [newline]\<rparr>,
             Some th)))"

text \<open>
  \<^verbatim>\<open>TextArea.appendText\<close> is \<^verbatim>\<open>QPlainTextEdit.appendPlainText\<close>: the text becomes a new
  paragraph at the end of the document.
\<close>

definition appendText :: "string \<Rightarrow> string \<Rightarrow> string" where
  "appendText doc t = (if doc = [] then t else doc @ [newline] @ t)"

definition on_analysis_finished :: "string list \<Rightarrow> screen \<Rightarrow> screen" where
  "on_analysis_finished results scr =
     (let scr1 = scr\<lparr>search_enabled := True, cancel_enabled := False\<rparr>
      in if results \<noteq> []
         then
           (let t1 = ''Found '' @ str_nat (length results) @ '' matches:'' @ [newline, newline];
                t2 = appendText t1 (join [newline] (take 1000 results));
                t3 = (if length results > 1000
                      then appendText t2
                             ([newline, newline] @ ''... and '' @ str_nat (length results - 1000)
                              @ '' more matches'')
                      else t2)
            in scr1\<lparr>results_text := t3,
                    status_label :=
                      ''Analysis complete: '' @ str_nat (length results) @ '' matches found''\<rparr>)
         else scr1\<lparr>results_text := ''No matches found'',
                   status_label := ''Analysis complete: No matches found''\<rparr>)"

section \<open>Reading the results back\<close>

text \<open>
  A record is \<^verbatim>\<open>f"{line_number}: {line}"\<close>. Its two parts are read back from the string:
  the digits before the first colon, and what follows the colon and the blank.
\<close>

definition digit_val :: "char \<Rightarrow> nat" where
  "digit_val c = of_char c - 48"

definition parse_nat :: "string \<Rightarrow> nat" where
  "parse_nat s = foldl (\<lambda>a c. 10 * a + digit_val c) 0 s"

definition record_number :: "string \<Rightarrow> nat" where
  "record_number r = parse_nat (takeWhile (\<lambda>c. c \<noteq> CHR '':'') r)"

definition record_text :: "string \<Rightarrow> string" where
  "record_text r = drop 2 (dropWhile (\<lambda>c. c \<noteq> CHR '':'') r)"

text \<open>
  The reference of the reconstruction property: the whole text split on newlines at once,
  without the empty fragment that follows a final newline.
\<close>

definition spec_lines :: "string \<Rightarrow> string list" where
  "spec_lines text =
     (let ls = split_on newline text in if last ls = [] then butlast ls else ls)"

text \<open>The records of the lines \<open>ls\<close> that match, numbered from \<open>n + 1\<close>.\<close>

definition numbered_matches :: "matcher \<Rightarrow> nat \<Rightarrow> string list \<Rightarrow> string list" where
  "numbered_matches m n ls =
     map (\<lambda>p. format_record (fst p) (snd p))
       (filter (\<lambda>p. line_matches m (snd p)) (zip [Suc n..<Suc n + length ls] ls))"

text \<open>The payload of the \<^verbatim>\<open>finished\<close> signal, when that is the last signal emitted.\<close>

definition finished_results :: "signal list \<Rightarrow> string list option" where
  "finished_results sigs =
     (if sigs = [] then None
      else case last sigs of Finished rs \<Rightarrow> Some rs | Progress msg \<Rightarrow> None)"

text \<open>Lexical order of paths, character code by character code.\<close>

fun path_le :: "string \<Rightarrow> string \<Rightarrow> bool" where
  "path_le [] q = True"
| "path_le (a # p) [] = False"
| "path_le (a # p) (b # q) =
     ((of_char a :: nat) < of_char b \<or> (a = b \<and> path_le p q))"

section \<open>Sample inputs\<close>


text \<open>A screen ready for a search, and a filesystem holding one readable log file.\<close>

definition idle_screen :: screen where
  "idle_screen = \<lparr>path_input = ''app.log'', pattern_input = ''error'', regex_checkbox = False,
     status_label = ''Ready'', results_text = [], search_enabled = True,
     cancel_enabled = False, analyzer_thread = None\<rparr>"

definition sample_text :: string where
  "sample_text = ''alpha'' @ [newline] @ ''BETA error'' @ [newline] @ ''gamma'' @ [newline]"

definition one_file_fs :: filesystem where
  "one_file_fs p = (if p = ''app.log'' then Some (RegularFile sample_text None) else None)"

section \<open>What the line assembler is compared with\<close>

text \<open>
  The carry buffer, the line counter and the results once the text \<open>txt\<close> has gone through
  the assembler in one piece, from the state \<open>st\<close>.
\<close>

definition carry_after ::
  "matcher \<Rightarrow> string \<times> nat \<times> string list \<Rightarrow> string \<Rightarrow> string \<times> nat \<times> string list" where
  "carry_after m st txt =
     (let ls = split_on newline (fst st @ txt)
      in (last ls, fst (snd st) + length (butlast ls),
          snd (snd st) @ numbered_matches m (fst (snd st)) (butlast ls)))"

text \<open>The number of non-empty chunks that a text of \<open>n\<close> characters is read in.\<close>

definition chunk_count :: "nat \<Rightarrow> nat \<Rightarrow> nat" where
  "chunk_count csize n = (n + csize - 1) div csize"

text \<open>
  A literal search for \<open>error\<close>, a \<^verbatim>\<open>re.compile\<close> that rejects every pattern, and a
  three-line text whose last line has no newline after it.
\<close>

definition literal_error :: thread where
  "literal_error = \<lparr>file_path = ''app.log'', pattern = ''error'', is_regex = False,
     is_directory = False\<rparr>"

definition no_regex :: re_compile where
  "no_regex p = None"

definition unterminated :: string where
  "unterminated = ''alpha'' @ [newline] @ ''BETA error'' @ [newline] @ ''last Error''"

text \<open>Whether \<^verbatim>\<open>open\<close> succeeds on what an entry is.\<close>

fun is_regular :: "node \<Rightarrow> bool" where
  "is_regular (RegularFile text fail) = True"
| "is_regular NoAccess = False"
| "is_regular (Directory entries) = False"

text \<open>
  A filesystem holding one directory \<open>logs\<close> with the given entries, a literal search for
  \<open>error\<close> in that directory, and some entries: two readable files around one that cannot
  be opened; a directory with a subdirectory and a file of another extension; two files of
  which the first ends without a newline.
\<close>

definition dir_fs :: "(string \<times> node) list \<Rightarrow> filesystem" where
  "dir_fs entries p = (if p = ''logs'' then Some (Directory entries) else None)"

definition dir_thread :: thread where
  "dir_thread = \<lparr>file_path = ''logs'', pattern = ''error'', is_regex = False,
     is_directory = True\<rparr>"

definition text_one :: string where
  "text_one = ''error one'' @ [newline]"

definition text_two :: string where
  "text_two = ''fine'' @ [newline] @ ''error two'' @ [newline]"

definition mixed_dir :: "(string \<times> node) list" where
  "mixed_dir =
     [(''a.log'', RegularFile text_one None),
      (''b.log'', NoAccess),
      (''c.log'', RegularFile text_two None)]"

definition nested_dir :: "(string \<times> node) list" where
  "nested_dir =
     [(''a.txt'', RegularFile text_one None),
      (''sub'', Directory [(''deep.log'', RegularFile text_two None)]),
      (''notes.md'', RegularFile text_two None),
      (''b.log'', RegularFile text_two None)]"



text \<open>A search by the regular expression \<open>(error\<close>, which \<^verbatim>\<open>re.compile\<close> rejects.\<close>

definition bad_thread :: thread where
  "bad_thread = \<lparr>file_path = ''app.log'', pattern = ''(error'', is_regex = True,
     is_directory = False\<rparr>"

definition regex_screen :: screen where
  "regex_screen = idle_screen\<lparr>pattern_input := ''(error'', regex_checkbox := True\<rparr>"

section \<open>Properties of the library operations\<close>

lemma starts_with_iff: "starts_with p s \<longleftrightarrow> (\<exists>post. s = p @ post)"
  by (induction p s rule: starts_with.induct) auto



section \<open>The match test\<close>



section \<open>The screen\<close>

text \<open>
  C9. A click on Search with an empty path or an empty pattern starts no thread and only
  sets the status to the message asking for both inputs; with both given and a path that
  does not exist it starts no thread and only sets the status to the message that the
  path does not exist. Nothing else of the screen changes, and a thread is started exactly
  when both inputs are non-empty and the path exists.
\<close>

theorem C9_start_rejected:
  "(path_input scr = [] \<or> pattern_input scr = [] \<longrightarrow>
      on_search_clicked fs scr =
        (scr\<lparr>status_label := ''Error: Please select a file/directory and enter a pattern''\<rparr>,
         None))
   \<and> (path_input scr \<noteq> [] \<and> pattern_input scr \<noteq> [] \<and> \<not> path_exists fs (path_input scr) \<longrightarrow>
      on_search_clicked fs scr = (scr\<lparr>status_label := ''Error: Path does not exist''\<rparr>, None))
   \<and> (snd (on_search_clicked fs scr) \<noteq> None \<longleftrightarrow>
        path_input scr \<noteq> [] \<and> pattern_input scr \<noteq> [] \<and> path_exists fs (path_input scr))"
  by (simp add: on_search_clicked_def Let_def)

text \<open>An empty pattern, an empty path, a missing path, and a search that does start.\<close>

theorem C9_start_rejected_witness:
  "on_search_clicked one_file_fs (idle_screen\<lparr>pattern_input := []\<rparr>) =
     (idle_screen\<lparr>pattern_input := [],
        status_label := ''Error: Please select a file/directory and enter a pattern''\<rparr>, None)
   \<and> on_search_clicked one_file_fs (idle_screen\<lparr>path_input := []\<rparr>) =
     (idle_screen\<lparr>path_input := [],
        status_label := ''Error: Please select a file/directory and enter a pattern''\<rparr>, None)
   \<and> on_search_clicked one_file_fs (idle_screen\<lparr>path_input := ''gone.log''\<rparr>) =
     (idle_screen\<lparr>path_input := ''gone.log'',
        status_label := ''Error: Path does not exist''\<rparr>, None)
   \<and> snd (on_search_clicked one_file_fs idle_screen) \<noteq> None"
proof -
  have a: "pattern_input (idle_screen\<lparr>pattern_input := []\<rparr>) = []" by simp
  have b: "path_input (idle_screen\<lparr>path_input := []\<rparr>) = []" by simp
  have c: "path_input (idle_screen\<lparr>path_input := ''gone.log''\<rparr>) \<noteq> []
      \<and> pattern_input (idle_screen\<lparr>path_input := ''gone.log''\<rparr>) \<noteq> []
      \<and> \<not> path_exists one_file_fs (path_input (idle_screen\<lparr>path_input := ''gone.log''\<rparr>))"
    by (simp add: idle_screen_def path_exists_def one_file_fs_def)
  have d: "path_input idle_screen \<noteq> [] \<and> pattern_input idle_screen \<noteq> []
      \<and> path_exists one_file_fs (path_input idle_screen)"
    by (simp add: idle_screen_def path_exists_def one_file_fs_def)
  show ?thesis
    using a b c d
      C9_start_rejected[of "idle_screen\<lparr>pattern_input := []\<rparr>" one_file_fs]
      C9_start_rejected[of "idle_screen\<lparr>path_input := []\<rparr>" one_file_fs]
      C9_start_rejected[of "idle_screen\<lparr>path_input := ''gone.log''\<rparr>" one_file_fs]
      C9_start_rejected[of idle_screen one_file_fs]
    by simp
qed

section \<open>Properties of the line assembler\<close>

lemma split_on_Cons [simp]:
  "split_on d (c # cs) =
     (if c = d then [] # split_on d cs else (c # hd (split_on d cs)) # tl (split_on d cs))"
  by (simp add: Let_def)

declare split_on.simps(2) [simp del]

lemma split_on_not_Nil [simp]: "split_on d s \<noteq> []"
  by (induction s) auto

lemma split_on_no_sep: "d \<notin> set s \<Longrightarrow> split_on d s = [s]"
  by (induction s) auto

lemma last_split_on_no_sep: "d \<notin> set (last (split_on d s))"
proof (induction s)
  case Nil
  then show ?case by simp
next
  case (Cons c s)
  then show ?case
    by (cases "split_on d s"; cases "tl (split_on d s)") (auto split: if_splits)
qed

lemma split_on_append:
  "split_on d (a @ b) = butlast (split_on d a) @ split_on d (last (split_on d a) @ b)"
proof (induction a)
  case Nil
  then show ?case by simp
next
  case (Cons c a)
  show ?case
  proof (cases "c = d")
    case True
    with Cons show ?thesis by simp
  next
    case False
    show ?thesis
    proof (cases "tl (split_on d a) = []")
      case True
      then have sa: "split_on d a = [hd (split_on d a)]"
        by (cases "split_on d a") auto
      then have "last (split_on d a) = hd (split_on d a)" and "butlast (split_on d a) = []"
        by (metis last.simps, metis butlast.simps(2))
      with False Cons True show ?thesis by simp
    next
      case nE: False
      then obtain x y ys where sa: "split_on d a = x # y # ys"
        by (cases "split_on d a"; cases "tl (split_on d a)") auto
      with False Cons show ?thesis by simp
    qed
  qed
qed

lemma join_split_on: "join [d] (split_on d s) = s"
proof (induction s)
  case Nil
  then show ?case by simp
next
  case (Cons c s)
  obtain x xs where sp: "split_on d s = x # xs"
    by (cases "split_on d s") auto
  with Cons show ?case
    by (cases xs) auto
qed

lemma numbered_matches_Nil [simp]: "numbered_matches m n [] = []"
  by (simp add: numbered_matches_def)

lemma numbered_matches_Cons:
  "numbered_matches m n (l # ls) =
     (if line_matches m l then [format_record (Suc n) l] else []) @ numbered_matches m (Suc n) ls"
proof -
  have "[Suc n..<Suc n + length (l # ls)] = Suc n # [Suc (Suc n)..<Suc (Suc n) + length ls]"
    by (subst upt_conv_Cons) simp_all
  then show ?thesis
    unfolding numbered_matches_def by simp
qed

lemma numbered_matches_append:
  "numbered_matches m n (xs @ ys) =
     numbered_matches m n xs @ numbered_matches m (n + length xs) ys"
  by (induction xs arbitrary: n) (auto simp: numbered_matches_Cons)

lemma process_lines_eq:
  "process_lines m (n, rs) ls = (n + length ls, rs @ numbered_matches m n ls)"
  unfolding process_lines_def
  by (induction ls arbitrary: n rs) (auto simp: process_line_def numbered_matches_Cons)


lemma carry_after_append:
  "carry_after m (carry_after m st a) b = carry_after m st (a @ b)"
proof -
  obtain buf ln rs where st: "st = (buf, ln, rs)" by (cases st) auto
  define A where "A = split_on newline (buf @ a)"
  define L where "L = split_on newline (last A @ b)"
  have sp: "split_on newline (buf @ a @ b) = butlast A @ L"
    using split_on_append[of newline "buf @ a" b] by (simp add: A_def L_def)
  have L: "L \<noteq> []" by (simp add: L_def)
  have 1: "last (butlast A @ L) = last L" using L by simp
  have 2: "butlast (butlast A @ L) = butlast A @ butlast L" using L by (simp add: butlast_append)
  show ?thesis
    unfolding st carry_after_def Let_def
    by (simp add: sp 1 2 numbered_matches_append flip: A_def L_def)
qed

lemma carry_after_Nil:
  "newline \<notin> set buf \<Longrightarrow> carry_after m (buf, ln, rs) [] = (buf, ln, rs)"
  by (simp add: carry_after_def split_on_no_sep)

lemma carry_after_no_newline: "newline \<notin> set (fst (carry_after m st txt))"
  by (simp add: carry_after_def Let_def last_split_on_no_sep)

lemma chunk_count_0 [simp]: "chunk_count csize 0 = 0"
  by (cases csize) (simp_all add: chunk_count_def)

lemma chunk_count_step:
  assumes "1 \<le> csize" and "0 < n"
  shows "chunk_count csize n = Suc (chunk_count csize (n - csize))"
proof -
  have c: "csize \<noteq> 0" using assms(1) by simp
  have d: "(x + csize) div csize = Suc (x div csize)" for x
    using c div_add_self2[of csize x] by simp
  show ?thesis
  proof (cases "csize \<le> n")
    case True
    have "n + csize - 1 = (n - csize + csize - 1) + csize"
      using True assms by linarith
    then have "(n + csize - 1) div csize = Suc ((n - csize + csize - 1) div csize)"
      by (simp only: d)
    then show ?thesis by (simp only: chunk_count_def)
  next
    case False
    have e: "n + csize - 1 = (n - 1) + csize" using assms by linarith
    have l: "(n - 1) div csize = 0" using False assms by simp
    have z: "n - csize = 0" using False by simp
    have "(n + csize - 1) div csize = Suc 0"
      by (simp only: e d l)
    moreover have "chunk_count csize (n - csize) = 0"
      by (simp only: z chunk_count_0)
    ultimately show ?thesis by (simp only: chunk_count_def)
  qed
qed

text \<open>One turn of the loop, case by case.\<close>

lemma read_chunk_ok:
  assumes "reads_left h \<noteq> Some 0"
  shows "read_chunk csize h =
      Inr (take csize (remaining h),
           \<lparr>remaining = drop csize (remaining h),
            reads_left = map_option (\<lambda>k. k - 1) (reads_left h)\<rparr>)"
proof (cases "reads_left h")
  case None
  then show ?thesis by (simp add: read_chunk_def)
next
  case (Some k)
  with assms obtain k' where "k = Suc k'" by (cases k) auto
  with Some show ?thesis by (simp add: read_chunk_def)
qed


lemma analyze_loop_stopped:
  assumes "\<not> fst (check_running fl)"
  shows "analyze_loop csize m h fl buffer ln rs =
     (None, snd (check_running fl), buffer, ln, rs)"
  by (subst analyze_loop.simps[of csize m h fl buffer ln rs]) (simp only: assms if_True simp_thms)

lemma analyze_loop_read_error:
  assumes "fst (check_running fl)" and "reads_left h = Some 0"
  shows "analyze_loop csize m h fl buffer ln rs =
     (Some OSError, snd (check_running fl), buffer, ln, rs)"
proof -
  have rc: "read_chunk csize h = Inl OSError"
    using assms(2) by (simp add: read_chunk_def)
  show ?thesis
    by (subst analyze_loop.simps[of csize m h fl buffer ln rs])
       (simp only: assms(1) not_True_eq_False if_False rc sum.case)
qed

lemma analyze_loop_eof:
  assumes "fst (check_running fl)" and "reads_left h \<noteq> Some 0"
    and "remaining h = [] \<or> csize = 0"
  shows "analyze_loop csize m h fl buffer ln rs =
     (None, snd (check_running fl), buffer, ln, rs)"
proof -
  have t: "take csize (remaining h) = []" using assms(3) by auto
  show ?thesis
    by (subst analyze_loop.simps[of csize m h fl buffer ln rs])
       (simp only: assms(1) not_True_eq_False if_False read_chunk_ok[OF assms(2)] t
          sum.case prod.case if_True simp_thms)
qed

lemma analyze_loop_chunk:
  assumes "fst (check_running fl)" and "reads_left h \<noteq> Some 0"
    and "remaining h \<noteq> []" and "1 \<le> csize"
  shows "analyze_loop csize m h fl buffer ln rs =
     (case carry_after m (buffer, ln, rs) (take csize (remaining h)) of
        (buffer', ln', rs') \<Rightarrow>
          analyze_loop csize m
            \<lparr>remaining = drop csize (remaining h),
             reads_left = map_option (\<lambda>k. k - 1) (reads_left h)\<rparr>
            (snd (check_running fl)) buffer' ln' rs')"
proof -
  have ne: "(take csize (remaining h) = []) = False"
    using assms(3,4) by (cases "remaining h"; cases csize) auto
  show ?thesis
    apply (subst analyze_loop.simps[of csize m h fl buffer ln rs])
    apply (simp only: assms(1) not_True_eq_False if_False read_chunk_ok[OF assms(2)]
        sum.case prod.case ne)
    apply (simp only: Let_def carry_after_def process_lines_eq fst_conv snd_conv prod.case)
    done
qed


text \<open>The loop under a stop flag that is seen set \<open>k\<close> times, on a file that reads without error.\<close>

lemma analyze_loop_budget:
  assumes "1 \<le> csize"
  shows "reads_left h = None \<Longrightarrow> newline \<notin> set buffer \<Longrightarrow>
    analyze_loop csize m h (Some k) buffer ln rs =
      (case carry_after m (buffer, ln, rs) (take (k * csize) (remaining h)) of
         (buffer', ln', rs') \<Rightarrow>
           (None, Some (k - Suc (chunk_count csize (length (remaining h)))), buffer', ln', rs'))"
proof (induction k arbitrary: h buffer ln rs)
  case 0
  then show ?case
    by (simp add: analyze_loop_stopped carry_after_Nil)
next
  case (Suc k)
  show ?case
  proof (cases "remaining h = []")
    case True
    with Suc.prems show ?thesis
      by (simp add: analyze_loop_eof carry_after_Nil)
  next
    case False
    define h' where "h' = \<lparr>remaining = drop csize (remaining h),
        reads_left = map_option (\<lambda>k. k - 1) (reads_left h)\<rparr>"
    obtain b1 l1 r1 where c1: "carry_after m (buffer, ln, rs) (take csize (remaining h)) = (b1, l1, r1)"
      by (cases "carry_after m (buffer, ln, rs) (take csize (remaining h))") auto
    have nb: "newline \<notin> set b1"
      using carry_after_no_newline[of m "(buffer, ln, rs)" "take csize (remaining h)"] c1 by simp
    have h': "reads_left h' = None" "remaining h' = drop csize (remaining h)"
      using Suc.prems by (simp_all add: h'_def)
    have step: "analyze_loop csize m h (Some (Suc k)) buffer ln rs =
        analyze_loop csize m h' (Some k) b1 l1 r1"
      using analyze_loop_chunk[of "Some (Suc k)" h csize m buffer ln rs] False assms Suc.prems c1
      by (simp add: h'_def)
    have tk: "take (Suc k * csize) (remaining h) =
        take csize (remaining h) @ take (k * csize) (remaining h')"
      by (simp add: h' take_add)
    have ca: "carry_after m (buffer, ln, rs) (take (Suc k * csize) (remaining h)) =
        carry_after m (b1, l1, r1) (take (k * csize) (remaining h'))"
      unfolding tk by (simp only: flip: carry_after_append c1)
    have cc: "chunk_count csize (length (remaining h)) =
        Suc (chunk_count csize (length (remaining h')))"
      using chunk_count_step[OF assms, of "length (remaining h)"] False by (simp add: h')
    show ?thesis
      unfolding step ca cc using Suc.IH[OF h'(1) nb, of l1 r1] by simp
  qed
qed

text \<open>The loop when the flag is never cleared and reading never fails.\<close>

lemma analyze_loop_full:
  assumes "1 \<le> csize"
  shows "reads_left h = None \<Longrightarrow> newline \<notin> set buffer \<Longrightarrow>
    analyze_loop csize m h None buffer ln rs =
      (case carry_after m (buffer, ln, rs) (remaining h) of
         (buffer', ln', rs') \<Rightarrow> (None, None, buffer', ln', rs'))"
proof (induction "length (remaining h)" arbitrary: h buffer ln rs rule: less_induct)
  case less
  show ?case
  proof (cases "remaining h = []")
    case True
    with less.prems show ?thesis
      by (simp add: analyze_loop_eof carry_after_Nil)
  next
    case False
    define h' where "h' = \<lparr>remaining = drop csize (remaining h),
        reads_left = map_option (\<lambda>k. k - 1) (reads_left h)\<rparr>"
    obtain b1 l1 r1 where c1: "carry_after m (buffer, ln, rs) (take csize (remaining h)) = (b1, l1, r1)"
      by (cases "carry_after m (buffer, ln, rs) (take csize (remaining h))") auto
    have nb: "newline \<notin> set b1"
      using carry_after_no_newline[of m "(buffer, ln, rs)" "take csize (remaining h)"] c1 by simp
    have h': "reads_left h' = None" "remaining h' = drop csize (remaining h)"
      using less.prems by (simp_all add: h'_def)
    have lt: "length (remaining h') < length (remaining h)"
      using False assms by (cases "remaining h") (simp_all add: h')
    have step: "analyze_loop csize m h None buffer ln rs = analyze_loop csize m h' None b1 l1 r1"
      using analyze_loop_chunk[of None h csize m buffer ln rs] False assms less.prems c1
      by (simp add: h'_def)
    have ca: "carry_after m (buffer, ln, rs) (remaining h) =
        carry_after m (b1, l1, r1) (remaining h')"
      using carry_after_append[of m "(buffer, ln, rs)" "take csize (remaining h)" "remaining h'"]
      by (simp add: c1 h')
    show ?thesis
      unfolding step ca using less.hyps[OF lt h'(1) nb, of l1 r1] by simp
  qed
qed

text \<open>The loop when the flag is never cleared and the read after \<open>r\<close> good ones raises.\<close>

lemma analyze_loop_reads:
  assumes "1 \<le> csize"
  shows "reads_left h = Some r \<Longrightarrow> newline \<notin> set buffer \<Longrightarrow>
    analyze_loop csize m h None buffer ln rs =
      (case carry_after m (buffer, ln, rs) (take (r * csize) (remaining h)) of
         (buffer', ln', rs') \<Rightarrow>
           (if r \<le> chunk_count csize (length (remaining h)) then Some OSError else None,
            None, buffer', ln', rs'))"
proof (induction r arbitrary: h buffer ln rs)
  case 0
  then show ?case
    by (simp add: analyze_loop_read_error carry_after_Nil)
next
  case (Suc r)
  show ?case
  proof (cases "remaining h = []")
    case True
    with Suc.prems show ?thesis
      by (simp add: analyze_loop_eof carry_after_Nil)
  next
    case False
    define h' where "h' = \<lparr>remaining = drop csize (remaining h),
        reads_left = map_option (\<lambda>k. k - 1) (reads_left h)\<rparr>"
    obtain b1 l1 r1 where c1: "carry_after m (buffer, ln, rs) (take csize (remaining h)) = (b1, l1, r1)"
      by (cases "carry_after m (buffer, ln, rs) (take csize (remaining h))") auto
    have nb: "newline \<notin> set b1"
      using carry_after_no_newline[of m "(buffer, ln, rs)" "take csize (remaining h)"] c1 by simp
    have h': "reads_left h' = Some r" "remaining h' = drop csize (remaining h)"
      using Suc.prems by (simp_all add: h'_def)
    have step: "analyze_loop csize m h None buffer ln rs = analyze_loop csize m h' None b1 l1 r1"
      using analyze_loop_chunk[of None h csize m buffer ln rs] False assms Suc.prems c1
      by (simp add: h'_def)
    have tk: "take (Suc r * csize) (remaining h) =
        take csize (remaining h) @ take (r * csize) (remaining h')"
      by (simp add: h' take_add)
    have ca: "carry_after m (buffer, ln, rs) (take (Suc r * csize) (remaining h)) =
        carry_after m (b1, l1, r1) (take (r * csize) (remaining h'))"
      unfolding tk by (simp only: flip: carry_after_append c1)
    have cc: "chunk_count csize (length (remaining h)) =
        Suc (chunk_count csize (length (remaining h')))"
      using chunk_count_step[OF assms, of "length (remaining h)"] False by (simp add: h')
    show ?thesis
      unfolding step ca cc using Suc.IH[OF h'(1) nb, of l1 r1] by simp
  qed
qed


lemma analyze_loop_None_flag:
  "fst (snd (analyze_loop csize m h None buffer ln rs)) = None"
proof (induction "length (remaining h)" arbitrary: h buffer ln rs rule: less_induct)
  case less
  consider (err) "reads_left h = Some 0"
    | (eof) "reads_left h \<noteq> Some 0" "remaining h = [] \<or> csize = 0"
    | (chunk) "reads_left h \<noteq> Some 0" "remaining h \<noteq> []" "1 \<le> csize"
    by (cases csize) auto
  then show ?case
  proof cases
    case err
    then show ?thesis by (simp add: analyze_loop_read_error)
  next
    case eof
    then show ?thesis by (simp add: analyze_loop_eof)
  next
    case chunk
    obtain b1 l1 r1 where c1: "carry_after m (buffer, ln, rs) (take csize (remaining h)) = (b1, l1, r1)"
      by (cases "carry_after m (buffer, ln, rs) (take csize (remaining h))") auto
    have lt: "length (drop csize (remaining h)) < length (remaining h)"
      using chunk by (cases "remaining h") simp_all
    show ?thesis
      using chunk c1 less.hyps[of "\<lparr>remaining = drop csize (remaining h),
             reads_left = map_option (\<lambda>k. k - 1) (reads_left h)\<rparr>" b1 l1 r1] lt
      by (simp add: analyze_loop_chunk)
  qed
qed

lemma digit_char_roundtrip: "d < 10 \<Longrightarrow> digit_val (digit_char d) = d"
  by (simp add: digit_val_def digit_char_def)

lemma digit_char_not_colon: "d < 10 \<Longrightarrow> digit_char d \<noteq> CHR '':''"
proof
  assume d: "d < 10" and "digit_char d = CHR '':''"
  then have "(of_char (digit_char d) :: nat) = of_char (CHR '':'')" by simp
  with d show False by (simp add: digit_char_def)
qed

lemma str_nat_no_colon: "CHR '':'' \<notin> set (str_nat n)"
proof (induction n rule: str_nat.induct)
  case (1 n)
  show ?case
  proof (cases "n < 10")
    case True
    then show ?thesis
      using digit_char_not_colon[of n] by (subst str_nat.simps) auto
  next
    case False
    have "n mod 10 < 10" by simp
    then have "digit_char (n mod 10) \<noteq> CHR '':''" by (rule digit_char_not_colon)
    with False 1 show ?thesis
      by (subst str_nat.simps) auto
  qed
qed

lemma parse_nat_snoc: "parse_nat (s @ [c]) = 10 * parse_nat s + digit_val c"
  by (simp add: parse_nat_def)

lemma parse_str_nat: "parse_nat (str_nat n) = n"
proof (induction n rule: str_nat.induct)
  case (1 n)
  show ?case
  proof (cases "n < 10")
    case True
    then show ?thesis
      by (subst str_nat.simps) (simp add: parse_nat_def digit_char_roundtrip)
  next
    case False
    have "n mod 10 < 10" by simp
    then have "digit_val (digit_char (n mod 10)) = n mod 10" by (rule digit_char_roundtrip)
    with False 1 show ?thesis
      by (subst str_nat.simps) (simp add: parse_nat_snoc)
  qed
qed

lemma record_number_format [simp]: "record_number (format_record n l) = n"
proof -
  have "takeWhile (\<lambda>c. c \<noteq> CHR '':'') (str_nat n @ '': '' @ l) = str_nat n"
  proof -
    have "\<And>x. x \<in> set (str_nat n) \<Longrightarrow> x \<noteq> CHR '':''"
      using str_nat_no_colon[of n] by auto
    then show ?thesis by (simp add: takeWhile_tail)
  qed
  then show ?thesis
    by (simp add: record_number_def format_record_def parse_str_nat)
qed

lemma record_text_format [simp]: "record_text (format_record n l) = l"
proof -
  have "dropWhile (\<lambda>c. c \<noteq> CHR '':'') (str_nat n @ '': '' @ l) = '': '' @ l"
  proof -
    have "\<And>x. x \<in> set (str_nat n) \<Longrightarrow> x \<noteq> CHR '':''"
      using str_nat_no_colon[of n] by auto
    then show ?thesis by simp
  qed
  then show ?thesis
    by (simp add: record_text_def format_record_def)
qed

lemma map_record_text_numbered:
  "map record_text (numbered_matches m n ls) = filter (line_matches m) ls"
  by (induction ls arbitrary: n) (auto simp: numbered_matches_Cons)

lemma map_record_number_numbered:
  "map record_number (numbered_matches m n ls) =
     map fst (filter (\<lambda>p. line_matches m (snd p)) (zip [Suc n..<Suc n + length ls] ls))"
  by (simp add: numbered_matches_def comp_def)

lemma numbered_matches_all:
  "(\<And>l. line_matches m l) \<Longrightarrow>
   numbered_matches m n ls = map (\<lambda>p. format_record (fst p) (snd p)) (zip [Suc n..<Suc n + length ls] ls)"
  by (simp add: numbered_matches_def)

lemma str_contains_Nil: "str_contains [] s"
  by (induction s) simp_all

lemma numbered_matches_snoc:
  "numbered_matches m n (ls @ [l]) =
     numbered_matches m n ls @ (if line_matches m l then [format_record (Suc (n + length ls)) l] else [])"
  by (simp add: numbered_matches_append numbered_matches_Cons)

lemma carry_after_start:
  "carry_after m ([], 0, []) txt =
     (last (split_on newline txt), length (butlast (split_on newline txt)),
      numbered_matches m 0 (butlast (split_on newline txt)))"
  by (simp add: carry_after_def Let_def)

lemma open_regular:
  "open_file (Some (RegularFile text fail)) = Inr \<lparr>remaining = text, reads_left = fail\<rparr>"
  by (simp add: open_file_def)

lemma analyze_file_readable:
  assumes "1 \<le> csize" and "make_matcher rc th = Inr m"
  shows "analyze_file rc csize th (Some (RegularFile text None)) None =
     (numbered_matches m 0 (spec_lines text), None)"
proof -
  define L where "L = split_on newline text"
  have loop: "analyze_loop csize m \<lparr>remaining = text, reads_left = None\<rparr> None [] 0 [] =
      (None, None, last L, length (butlast L), numbered_matches m 0 (butlast L))"
    using analyze_loop_full[OF assms(1), of "\<lparr>remaining = text, reads_left = None\<rparr>" "[]" m 0 "[]"]
    by (simp add: carry_after_start L_def)
  have L: "L \<noteq> []" by (simp add: L_def)
  then have bl: "butlast L @ [last L] = L" by simp
  have fl: "numbered_matches m 0 L =
      numbered_matches m 0 (butlast L)
      @ (if line_matches m (last L) then [format_record (Suc (length (butlast L))) (last L)] else [])"
    using numbered_matches_snoc[of m 0 "butlast L" "last L"] by (simp only: bl add_0)
  show ?thesis
    unfolding analyze_file_def assms(2) open_regular
    by (simp add: loop spec_lines_def process_line_def fl flip: L_def)
qed

lemma analyze_file_stop_seen:
  assumes "1 \<le> csize" and "make_matcher rc th = Inr m"
    and "k \<le> Suc (chunk_count csize (length text))"
  shows "analyze_file rc csize th (Some (RegularFile text None)) (Some k) =
     (numbered_matches m 0 (butlast (split_on newline (take (k * csize) text))), Some 0)"
proof -
  define L where "L = split_on newline (take (k * csize) text)"
  have z: "k - Suc (chunk_count csize (length text)) = 0" using assms(3) by simp
  have loop: "analyze_loop csize m \<lparr>remaining = text, reads_left = None\<rparr> (Some k) [] 0 [] =
      (None, Some 0, last L, length (butlast L), numbered_matches m 0 (butlast L))"
    using analyze_loop_budget[OF assms(1), of "\<lparr>remaining = text, reads_left = None\<rparr>" "[]" m k 0 "[]"]
    by (simp add: carry_after_start L_def z)
  show ?thesis
    unfolding analyze_file_def assms(2) open_regular
    by (simp add: loop flip: L_def)
qed

lemma complete_lines_prefix:
  "butlast (split_on newline (a @ b)) =
     butlast (split_on newline a) @ butlast (split_on newline (last (split_on newline a) @ b))"
  by (simp add: split_on_append[of newline a b] butlast_append)

section \<open>Scanning one file\<close>

text \<open>
  C1. For every text, every chunk size of at least one character and every pattern, a
  scan that is never stopped and reads without error yields, in order, exactly the
  matching lines among the lines of the whole text split on newlines at once (without the
  empty fragment after a final newline); with a pattern that every line matches it yields
  every line, each once and in order, wherever the chunk boundaries fall.
\<close>

theorem C1_reconstruction:
  assumes "1 \<le> csize" and "make_matcher rc th = Inr m"
  shows "map record_text (fst (analyze_file rc csize th (Some (RegularFile text None)) None)) =
           filter (line_matches m) (spec_lines text)
         \<and> ((\<forall>l. line_matches m l) \<longrightarrow>
              map record_text (fst (analyze_file rc csize th (Some (RegularFile text None)) None)) =
                spec_lines text)"
  by (simp add: analyze_file_readable[OF assms] map_record_text_numbered)

text \<open>
  The same text read one character at a time, four at a time and in one chunk of the
  source's size; and every line of it, for the pattern that matches everything.
\<close>

theorem C1_reconstruction_witness:
  "map record_text (fst (analyze_file no_regex 1 literal_error (Some (RegularFile unterminated None)) None))
     = [''BETA error'', ''last Error'']
   \<and> map record_text (fst (analyze_file no_regex 4 literal_error (Some (RegularFile unterminated None)) None))
     = [''BETA error'', ''last Error'']
   \<and> map record_text (fst (analyze_file no_regex chunk_size literal_error (Some (RegularFile unterminated None)) None))
     = [''BETA error'', ''last Error'']
   \<and> map record_text
        (fst (analyze_file no_regex 3 (literal_error\<lparr>pattern := []\<rparr>)
           (Some (RegularFile unterminated None)) None))
     = [''alpha'', ''BETA error'', ''last Error'']"
proof -
  have mm: "make_matcher no_regex literal_error = Inr (Literal ''error'')"
    by (simp add: make_matcher_def literal_error_def)
  have m0: "make_matcher no_regex (literal_error\<lparr>pattern := []\<rparr>) = Inr (Literal [])"
    by (simp add: make_matcher_def literal_error_def)
  have le: "1 \<le> (1::nat)" "1 \<le> (4::nat)" "1 \<le> (3::nat)" "1 \<le> chunk_size"
    by (simp_all add: chunk_size_def)
  have all: "\<forall>l. line_matches (Literal []) l"
    by (simp add: lower_def str_contains_Nil)
  have f: "filter (line_matches (Literal ''error'')) (spec_lines unterminated)
      = [''BETA error'', ''last Error'']" by code_simp
  have s: "spec_lines unterminated = [''alpha'', ''BETA error'', ''last Error'']" by code_simp
  note a = C1_reconstruction[OF le(1) mm, of unterminated, THEN conjunct1]
  note b = C1_reconstruction[OF le(2) mm, of unterminated, THEN conjunct1]
  note c = C1_reconstruction[OF le(4) mm, of unterminated, THEN conjunct1]
  note d = C1_reconstruction[OF le(3) m0, of unterminated, THEN conjunct2, THEN mp, OF all]
  show ?thesis
    apply (simp only: a b c f simp_thms)
    apply (simp only: d s)
    done
qed

text \<open>
  C4. The number in the record of a line is the position of that line in the file,
  counted from 1: the records of a scan carry the positions of the matching lines, and
  when every line matches the numbers are exactly 1, 2, ..., n, the last line included
  when the end-of-file flush emits it.
\<close>

theorem C4_line_numbers:
  assumes "1 \<le> csize" and "make_matcher rc th = Inr m"
  shows "map record_number (fst (analyze_file rc csize th (Some (RegularFile text None)) None)) =
           map fst (filter (\<lambda>p. line_matches m (snd p))
             (zip [1..<Suc (length (spec_lines text))] (spec_lines text)))
         \<and> ((\<forall>l. line_matches m l) \<longrightarrow>
              map record_number (fst (analyze_file rc csize th (Some (RegularFile text None)) None)) =
                [1..<Suc (length (spec_lines text))])"
  by (simp add: analyze_file_readable[OF assms] map_record_number_numbered)

text \<open>Three lines, the last one without a newline: numbers 1, 2, 3; the matches are 2 and 3.\<close>

theorem C4_line_numbers_witness:
  "map record_number
     (fst (analyze_file no_regex 2 (literal_error\<lparr>pattern := []\<rparr>)
        (Some (RegularFile unterminated None)) None)) = [1, 2, 3]
   \<and> map record_number
     (fst (analyze_file no_regex chunk_size literal_error
        (Some (RegularFile unterminated None)) None)) = [2, 3]"
proof -
  have mm: "make_matcher no_regex literal_error = Inr (Literal ''error'')"
    by (simp add: make_matcher_def literal_error_def)
  have m0: "make_matcher no_regex (literal_error\<lparr>pattern := []\<rparr>) = Inr (Literal [])"
    by (simp add: make_matcher_def literal_error_def)
  have le: "1 \<le> (2::nat)" "1 \<le> chunk_size"
    by (simp_all add: chunk_size_def)
  have all: "\<forall>l. line_matches (Literal []) l"
    by (simp add: lower_def str_contains_Nil)
  have u: "[1..<Suc (length (spec_lines unterminated))] = [1, 2, 3::nat]" by code_simp
  have f: "map fst (filter (\<lambda>p. line_matches (Literal ''error'') (snd p))
      (zip [1..<Suc (length (spec_lines unterminated))] (spec_lines unterminated))) = [2, 3]"
    by code_simp
  note a = C4_line_numbers[OF le(1) m0, of unterminated, THEN conjunct2, THEN mp, OF all]
  note b = C4_line_numbers[OF le(2) mm, of unterminated, THEN conjunct1]
  show ?thesis
    apply (simp only: b f simp_thms)
    apply (simp only: a u)
    done
qed

text \<open>
  C10. When at most as many reads of the stop flag see it set as the loop makes up to the
  end of the stream (one per non-empty chunk and one more), the scan of a readable file
  returns the records of the lines completed by a newline within the chunks read so far
  and nothing else: the fragment after the last newline is never emitted, and what is
  returned is an initial part of the records of the newline-terminated lines of the file.
\<close>

theorem C10_stop_skips_flush:
  assumes "1 \<le> csize" and "make_matcher rc th = Inr m"
    and "k \<le> Suc (chunk_count csize (length text))"
  shows "fst (analyze_file rc csize th (Some (RegularFile text None)) (Some k)) =
           numbered_matches m 0 (butlast (split_on newline (take (k * csize) text)))
         \<and> (\<exists>rest. numbered_matches m 0 (butlast (split_on newline text)) =
               fst (analyze_file rc csize th (Some (RegularFile text None)) (Some k)) @ rest)"
proof -
  have "butlast (split_on newline (take (k * csize) text @ drop (k * csize) text)) =
      butlast (split_on newline (take (k * csize) text))
      @ butlast (split_on newline
          (last (split_on newline (take (k * csize) text)) @ drop (k * csize) text))"
    by (rule complete_lines_prefix)
  then have "\<exists>more. butlast (split_on newline text) =
      butlast (split_on newline (take (k * csize) text)) @ more"
    by simp
  then obtain more where "butlast (split_on newline text) =
      butlast (split_on newline (take (k * csize) text)) @ more" ..
  then have "numbered_matches m 0 (butlast (split_on newline text)) =
      numbered_matches m 0 (butlast (split_on newline (take (k * csize) text)))
      @ numbered_matches m (0 + length (butlast (split_on newline (take (k * csize) text)))) more"
    by (simp only: numbered_matches_append)
  then show ?thesis
    by (simp add: analyze_file_stop_seen[OF assms])
qed

text \<open>
  The whole text is read in one chunk and its last line matches; stopped after two reads of
  the flag the scan returns line 2 only, while the scan that is never stopped returns
  lines 2 and 3.
\<close>

theorem C10_stop_skips_flush_witness:
  "fst (analyze_file no_regex chunk_size literal_error (Some (RegularFile unterminated None)) (Some 2))
     = [''2: BETA error'']
   \<and> fst (analyze_file no_regex chunk_size literal_error (Some (RegularFile unterminated None)) None)
     = [''2: BETA error'', ''3: last Error'']
   \<and> fst (analyze_file no_regex 9 literal_error (Some (RegularFile unterminated None)) (Some 2))
     = [''2: BETA error'']"
proof -
  have mm: "make_matcher no_regex literal_error = Inr (Literal ''error'')"
    by (simp add: make_matcher_def literal_error_def)
  have le: "1 \<le> chunk_size" "1 \<le> (9::nat)" by (simp_all add: chunk_size_def)
  have len: "length unterminated = 27" by (simp add: unterminated_def)
  have k: "2 \<le> Suc (chunk_count chunk_size (length unterminated))"
    by (simp add: len chunk_count_def chunk_size_def)
  have k9: "2 \<le> Suc (chunk_count 9 (length unterminated))"
    by (simp add: len chunk_count_def)
  have t: "take (2 * chunk_size) unterminated = unterminated"
    by (simp add: len chunk_size_def)
  have a: "numbered_matches (Literal ''error'') 0
      (butlast (split_on newline unterminated)) = [''2: BETA error'']"
    by code_simp
  have b: "numbered_matches (Literal ''error'') 0
      (butlast (split_on newline (take (2 * 9) unterminated))) = [''2: BETA error'']"
    by code_simp
  have s: "numbered_matches (Literal ''error'') 0 (spec_lines unterminated) =
      [''2: BETA error'', ''3: last Error'']"
    by code_simp
  have c: "fst (analyze_file no_regex chunk_size literal_error
      (Some (RegularFile unterminated None)) None) = [''2: BETA error'', ''3: last Error'']"
    by (simp only: analyze_file_readable[OF le(1) mm] s fst_conv)
  note x = C10_stop_skips_flush[OF le(1) mm k, THEN conjunct1]
  note y = C10_stop_skips_flush[OF le(2) mm k9, THEN conjunct1]
  show ?thesis
    by (simp only: x y t a b c simp_thms)
qed

section \<open>The result display\<close>

lemma digit_char_code: "d < 10 \<Longrightarrow> (of_char (digit_char d) :: nat) = 48 + d"
  by (simp add: digit_char_def)

lemma str_nat_digits:
  "c \<in> set (str_nat n) \<Longrightarrow> 48 \<le> (of_char c :: nat) \<and> (of_char c :: nat) \<le> 57"
proof (induction n rule: str_nat.induct)
  case (1 n)
  show ?case
  proof (cases "n < 10")
    case True
    with "1.prems" have "c = digit_char n" by (subst (asm) str_nat.simps) simp
    with True show ?thesis by (simp add: digit_char_code)
  next
    case False
    with "1.prems" have "c \<in> set (str_nat (n div 10)) \<or> c = digit_char (n mod 10)"
      by (subst (asm) str_nat.simps) auto
    then show ?thesis
    proof
      assume "c \<in> set (str_nat (n div 10))"
      with False "1.IH" show ?thesis by simp
    next
      assume c: "c = digit_char (n mod 10)"
      have "n mod 10 < 10" by simp
      then have "(of_char (digit_char (n mod 10)) :: nat) = 48 + n mod 10"
        by (rule digit_char_code)
      with c show ?thesis by simp
    qed
  qed
qed

lemma str_nat_no_newline: "newline \<notin> set (str_nat n)"
proof
  assume "newline \<in> set (str_nat n)"
  then have "48 \<le> (of_char newline :: nat)" using str_nat_digits by blast
  then show False by (simp add: newline_def)
qed

lemma str_nat_no_LF: "CHR 0x0A \<notin> set (str_nat n)"
  using str_nat_no_newline[of n] by (simp add: newline_def)

lemma split_on_sep: "d \<notin> set a \<Longrightarrow> split_on d (a @ d # b) = a # split_on d b"
  by (induction a) auto

lemma split_on_join:
  "xs \<noteq> [] \<Longrightarrow> \<forall>x\<in>set xs. d \<notin> set x \<Longrightarrow> split_on d (join [d] xs) = xs"
proof (induction "[d]" xs rule: join.induct)
  case 1
  then show ?case by simp
next
  case (2 p)
  then show ?case by (simp add: split_on_no_sep)
next
  case (3 p q ps)
  then show ?case by (simp add: split_on_sep)
qed

lemma split_on_join_sep:
  "xs \<noteq> [] \<Longrightarrow> \<forall>x\<in>set xs. d \<notin> set x \<Longrightarrow>
   split_on d (join [d] xs @ d # rest) = xs @ split_on d rest"
proof (induction "[d]" xs rule: join.induct)
  case 1
  then show ?case by simp
next
  case (2 p)
  then show ?case by (simp add: split_on_sep)
next
  case (3 p q ps)
  then show ?case by (simp add: split_on_sep)
qed

lemma split_on_parts_no_sep: "x \<in> set (split_on d s) \<Longrightarrow> d \<notin> set x"
proof (induction s arbitrary: x)
  case Nil
  then show ?case by simp
next
  case (Cons c s)
  obtain y ys where sp: "split_on d s = y # ys" by (cases "split_on d s") auto
  with Cons show ?case by (auto split: if_splits)
qed

lemma format_record_no_newline:
  "newline \<notin> set l \<Longrightarrow> newline \<notin> set (format_record n l)"
  by (simp add: format_record_def str_nat_no_LF newline_def)

lemma numbered_matches_no_newline:
  assumes "\<forall>l\<in>set ls. newline \<notin> set l"
  shows "\<forall>r\<in>set (numbered_matches m n ls). newline \<notin> set r"
  using assms
  by (induction ls arbitrary: n) (auto simp: numbered_matches_Cons format_record_no_newline)

lemma scan_records_no_newline:
  assumes "1 \<le> csize" and "make_matcher rc th = Inr m"
  shows "\<forall>r\<in>set (fst (analyze_file rc csize th (Some (RegularFile text None)) None)).
           newline \<notin> set r"
proof -
  have "\<forall>l\<in>set (spec_lines text). newline \<notin> set l"
    by (auto simp: spec_lines_def Let_def split_on_parts_no_sep dest: in_set_butlastD)
  then show ?thesis
    by (simp add: analyze_file_readable[OF assms] numbered_matches_no_newline)
qed

lemma header_no_newline: "newline \<notin> set (''Found '' @ str_nat n @ '' matches:'')"
  by (simp add: str_nat_no_LF newline_def)

lemma more_no_newline: "newline \<notin> set (''... and '' @ str_nat n @ '' more matches'')"
  by (simp add: str_nat_no_LF newline_def)

lemma display_lines:
  assumes "shown \<noteq> []" and "\<forall>x\<in>set shown. newline \<notin> set x" and "newline \<notin> set h"
  shows "split_on newline (h @ [newline, newline, newline] @ join [newline] shown) =
           [h, [], []] @ shown"
    and "newline \<notin> set t \<Longrightarrow>
         split_on newline
           (h @ [newline, newline, newline] @ join [newline] shown
              @ [newline, newline, newline] @ t) =
           [h, [], []] @ shown @ [[], [], t]"
proof -
  have a: "split_on newline (h @ newline # rest) = h # split_on newline rest" for rest
    using assms(3) by (rule split_on_sep)
  show "split_on newline (h @ [newline, newline, newline] @ join [newline] shown) =
           [h, [], []] @ shown"
    using a[of "[newline, newline] @ join [newline] shown"] assms(1,2)
    by (simp add: split_on_join)
  assume t: "newline \<notin> set t"
  have b: "split_on newline (join [newline] shown @ newline # newline # newline # t) =
      shown @ [[], [], t]"
    using split_on_join_sep[OF assms(1,2), of "newline # newline # t"] t
    by (simp add: split_on_no_sep)
  show "split_on newline
           (h @ [newline, newline, newline] @ join [newline] shown
              @ [newline, newline, newline] @ t) =
           [h, [], []] @ shown @ [[], [], t]"
    using a[of "[newline, newline] @ join [newline] shown @ [newline, newline, newline] @ t"] b
    by simp
qed

text \<open>
  C8. A non-empty result list of \<open>R\<close> records is displayed as the header with the count
  \<open>R\<close>, then the first 1000 records joined by newlines, then, only when \<open>R\<close> exceeds
  1000, the note with the remainder \<open>R - 1000\<close>; the status reports the full count \<open>R\<close>.
  Read back line by line, the display of records that hold no newline (as the records of a
  scan do) is the header, two empty lines, exactly the first \<open>min R 1000\<close> records in
  order, and, only when \<open>R\<close> exceeds 1000, two empty lines and the remainder note. An
  empty result list is displayed as the message that nothing matched.
\<close>

theorem C8_display_cap:
  "(results \<noteq> [] \<longrightarrow>
      results_text (on_analysis_finished results scr) =
        ''Found '' @ str_nat (length results) @ '' matches:'' @ [newline, newline, newline]
        @ join [newline] (take 1000 results)
        @ (if 1000 < length results
           then [newline, newline, newline] @ ''... and '' @ str_nat (length results - 1000)
                @ '' more matches''
           else [])
      \<and> status_label (on_analysis_finished results scr) =
          ''Analysis complete: '' @ str_nat (length results) @ '' matches found'')
   \<and> (results \<noteq> [] \<and> (\<forall>r\<in>set results. newline \<notin> set r) \<longrightarrow>
      split_on newline (results_text (on_analysis_finished results scr)) =
        [''Found '' @ str_nat (length results) @ '' matches:'', [], []]
        @ take 1000 results
        @ (if 1000 < length results
           then [[], [], ''... and '' @ str_nat (length results - 1000) @ '' more matches'']
           else [])
      \<and> length (take 1000 results) = min (length results) 1000)
   \<and> (results = [] \<longrightarrow>
      results_text (on_analysis_finished results scr) = ''No matches found''
      \<and> status_label (on_analysis_finished results scr) = ''Analysis complete: No matches found'')"
proof (intro conjI impI)
  assume ne: "results \<noteq> []"
  show raw: "results_text (on_analysis_finished results scr) =
        ''Found '' @ str_nat (length results) @ '' matches:'' @ [newline, newline, newline]
        @ join [newline] (take 1000 results)
        @ (if 1000 < length results
           then [newline, newline, newline] @ ''... and '' @ str_nat (length results - 1000)
                @ '' more matches''
           else [])"
    using ne by (simp add: on_analysis_finished_def Let_def appendText_def)
  show "status_label (on_analysis_finished results scr) =
          ''Analysis complete: '' @ str_nat (length results) @ '' matches found''"
    using ne by (simp add: on_analysis_finished_def Let_def appendText_def)
next
  assume h: "results \<noteq> [] \<and> (\<forall>r\<in>set results. newline \<notin> set r)"
  then have ne: "results \<noteq> []" and nl: "\<forall>r\<in>set results. newline \<notin> set r" by auto
  have raw: "results_text (on_analysis_finished results scr) =
        (''Found '' @ str_nat (length results) @ '' matches:'') @ [newline, newline, newline]
        @ join [newline] (take 1000 results)
        @ (if 1000 < length results
           then [newline, newline, newline] @ (''... and '' @ str_nat (length results - 1000)
                @ '' more matches'')
           else [])"
    using ne by (simp add: on_analysis_finished_def Let_def appendText_def)
  have s1: "take 1000 results \<noteq> []" using ne by (cases results) simp_all
  have s2: "\<forall>x\<in>set (take 1000 results). newline \<notin> set x"
    using nl by (auto dest: in_set_takeD)
  show "split_on newline (results_text (on_analysis_finished results scr)) =
        [''Found '' @ str_nat (length results) @ '' matches:'', [], []]
        @ take 1000 results
        @ (if 1000 < length results
           then [[], [], ''... and '' @ str_nat (length results - 1000) @ '' more matches'']
           else [])"
  proof (cases "1000 < length results")
    case True
    show ?thesis
      unfolding raw using True
        display_lines(2)[OF s1 s2 header_no_newline more_no_newline,
          of "length results" "length results - 1000"]
      by simp
  next
    case False
    show ?thesis
      unfolding raw using False
        display_lines(1)[OF s1 s2 header_no_newline, of "length results"]
      by simp
  qed
  show "length (take 1000 results) = min (length results) 1000" by simp
next
  assume "results = []"
  then show "results_text (on_analysis_finished results scr) = ''No matches found''"
    and "status_label (on_analysis_finished results scr) = ''Analysis complete: No matches found''"
    by (simp_all add: on_analysis_finished_def)
qed

text \<open>
  1500 records: the display read back holds 1000 of them and the note for 500 more, and
  the status counts 1500. Two records: the text of the display, character by character.
\<close>

theorem C8_display_cap_witness:
  "split_on newline (results_text (on_analysis_finished (replicate 1500 ''7: error'') idle_screen)) =
     [''Found 1500 matches:'', [], []] @ replicate 1000 ''7: error''
     @ [[], [], ''... and 500 more matches'']
   \<and> length (replicate 1000 ''7: error'') = 1000
   \<and> status_label (on_analysis_finished (replicate 1500 ''7: error'') idle_screen) =
       ''Analysis complete: 1500 matches found''
   \<and> results_text (on_analysis_finished [''2: BETA error'', ''3: last Error''] idle_screen) =
       ''Found 2 matches:'' @ [newline, newline, newline] @ ''2: BETA error'' @ [newline]
       @ ''3: last Error''
   \<and> split_on newline
        (results_text (on_analysis_finished [''2: BETA error'', ''3: last Error''] idle_screen)) =
       [''Found 2 matches:'', [], [], ''2: BETA error'', ''3: last Error'']
   \<and> results_text (on_analysis_finished [] idle_screen) = ''No matches found''"
proof -
  have n: "replicate 1500 ''7: error'' \<noteq> []
      \<and> (\<forall>r\<in>set (replicate 1500 ''7: error''). newline \<notin> set r)"
    by (simp add: newline_def)
  have n2: "[''2: BETA error'', ''3: last Error''] \<noteq> []
      \<and> (\<forall>r\<in>set [''2: BETA error'', ''3: last Error'']. newline \<notin> set r)"
    by (simp add: newline_def)
  have s1: "str_nat 1500 = ''1500''" by code_simp
  have s2: "str_nat 500 = ''500''" by code_simp
  have s3: "str_nat (Suc (Suc 0)) = ''2''" by code_simp
  have t: "take 1000 (replicate 1500 ''7: error'') = replicate 1000 ''7: error''" by simp
  note big = C8_display_cap[where results = "replicate 1500 ''7: error''", where scr = idle_screen]
  note small = C8_display_cap[where results = "[''2: BETA error'', ''3: last Error'']",
      where scr = idle_screen]
  note none = C8_display_cap[where results = "[]", where scr = idle_screen]
  have a: "split_on newline (results_text (on_analysis_finished (replicate 1500 ''7: error'') idle_screen)) =
     [''Found 1500 matches:'', [], []] @ replicate 1000 ''7: error''
     @ [[], [], ''... and 500 more matches'']"
    using big[THEN conjunct2, THEN conjunct1, THEN mp, OF n, THEN conjunct1]
    by (simp add: s1 s2 t)
  have b: "status_label (on_analysis_finished (replicate 1500 ''7: error'') idle_screen) =
       ''Analysis complete: 1500 matches found''"
    using big[THEN conjunct1, THEN mp, OF n[THEN conjunct1], THEN conjunct2]
    by (simp add: s1)
  have c: "results_text (on_analysis_finished [''2: BETA error'', ''3: last Error''] idle_screen) =
       ''Found 2 matches:'' @ [newline, newline, newline] @ ''2: BETA error'' @ [newline]
       @ ''3: last Error''"
    using small[THEN conjunct1, THEN mp, OF n2[THEN conjunct1], THEN conjunct1]
    by (simp add: s3)
  have d: "split_on newline
        (results_text (on_analysis_finished [''2: BETA error'', ''3: last Error''] idle_screen)) =
       [''Found 2 matches:'', [], [], ''2: BETA error'', ''3: last Error'']"
    using small[THEN conjunct2, THEN conjunct1, THEN mp, OF n2, THEN conjunct1]
    by (simp add: s3)
  have e: "results_text (on_analysis_finished [] idle_screen) = ''No matches found''"
    using none[THEN conjunct2, THEN conjunct2] by simp
  from a b c d e show ?thesis by simp
qed

section \<open>Scanning a directory\<close>

lemma analyze_file_None_flag: "snd (analyze_file rc csize th nd None) = None"
proof (cases "make_matcher rc th")
  case (Inl e)
  then show ?thesis by (simp add: analyze_file_def)
next
  case (Inr m)
  show ?thesis
  proof (cases "open_file nd")
    case (Inl e)
    with Inr show ?thesis by (simp add: analyze_file_def)
  next
    case (Inr h)
    obtain e fl b l r where lp: "analyze_loop csize m h None [] 0 [] = (e, fl, b, l, r)"
      by (cases "analyze_loop csize m h None [] 0 []") auto
    have "fl = None"
      using analyze_loop_None_flag[of csize m h "[]" 0 "[]"] lp by simp
    with \<open>make_matcher rc th = Inr m\<close> Inr lp show ?thesis
      by (cases e) (simp_all add: analyze_file_def)
  qed
qed

lemma analyze_file_not_regular:
  "\<not> is_regular nd \<Longrightarrow> analyze_file rc csize th (Some nd) fl = ([], fl)"
  by (cases nd; cases "make_matcher rc th") (simp_all add: analyze_file_def open_file_def)

lemma analyze_file_bad_pattern:
  "make_matcher rc th = Inl e \<Longrightarrow> analyze_file rc csize th nd fl = ([], fl)"
  by (simp add: analyze_file_def)

text \<open>The loop over the files when the flag is never cleared.\<close>

lemma scan_files_never_stopped:
  "scan_files rc csize th files None acc =
     (acc @ concat (map (\<lambda>f. fst (analyze_file rc csize th (Some (snd f)) None)) files),
      map (\<lambda>f. Progress (''Processing '' @ fst f @ ''...'')) files, None)"
proof (induction files arbitrary: acc)
  case Nil
  then show ?case by simp
next
  case (Cons f files)
  have "snd (analyze_file rc csize th (Some (snd f)) None) = None"
    by (rule analyze_file_None_flag)
  with Cons show ?case by (simp add: Let_def)
qed

lemma concat_regular_only:
  "concat (map (\<lambda>f. fst (analyze_file rc csize th (Some (snd f)) None)) files) =
   concat (map (\<lambda>f. fst (analyze_file rc csize th (Some (snd f)) None))
     (filter (\<lambda>f. is_regular (snd f)) files))"
  by (induction files) (auto simp: analyze_file_not_regular)

lemma analyze_file_read_error:
  assumes "1 \<le> csize" and "make_matcher rc th = Inr m"
    and "r \<le> chunk_count csize (length text)"
  shows "analyze_file rc csize th (Some (RegularFile text (Some r))) None =
     (numbered_matches m 0 (butlast (split_on newline (take (r * csize) text))), None)"
proof -
  define L where "L = split_on newline (take (r * csize) text)"
  have loop: "analyze_loop csize m \<lparr>remaining = text, reads_left = Some r\<rparr> None [] 0 [] =
      (Some OSError, None, last L, length (butlast L), numbered_matches m 0 (butlast L))"
    using analyze_loop_reads[OF assms(1), of "\<lparr>remaining = text, reads_left = Some r\<rparr>" r "[]" m 0 "[]"]
      assms(3)
    by (simp add: carry_after_start L_def)
  show ?thesis
    unfolding analyze_file_def assms(2) open_regular
    by (simp add: loop flip: L_def)
qed

lemma finished_results_snoc [simp]: "finished_results (sigs @ [Finished rs]) = Some rs"
  by (simp add: finished_results_def)

text \<open>
  C6. An error on one file is not fatal. A directory scan that is never stopped ends with
  the finished signal, and its results are the results of the entries that can be opened,
  in visit order: an entry that cannot be opened contributes nothing and the scan goes on
  with the next entry. A file whose read raises after \<open>r\<close> good reads keeps the records of
  the lines completed within those \<open>r\<close> chunks.
\<close>

theorem C6_file_errors_not_fatal:
  "(is_directory th \<longrightarrow>
      finished_results (run_sized rc csize fs th None) =
        Some (concat (map (\<lambda>f. fst (analyze_file rc csize th (Some (snd f)) None))
                (filter (\<lambda>f. is_regular (snd f)) (log_files (fs (file_path th)))))))
   \<and> (1 \<le> csize \<and> make_matcher rc th = Inr m \<and> r \<le> chunk_count csize (length content) \<longrightarrow>
      analyze_file rc csize th (Some (RegularFile content (Some r))) None =
        (numbered_matches m 0 (butlast (split_on newline (take (r * csize) content))), None))"
proof (intro conjI impI)
  assume "is_directory th"
  then show "finished_results (run_sized rc csize fs th None) =
        Some (concat (map (\<lambda>f. fst (analyze_file rc csize th (Some (snd f)) None))
                (filter (\<lambda>f. is_regular (snd f)) (log_files (fs (file_path th))))))"
    by (simp add: run_sized_def Let_def scan_files_never_stopped flip: concat_regular_only)
next
  assume "1 \<le> csize \<and> make_matcher rc th = Inr m \<and> r \<le> chunk_count csize (length content)"
  then show "analyze_file rc csize th (Some (RegularFile content (Some r))) None =
        (numbered_matches m 0 (butlast (split_on newline (take (r * csize) content))), None)"
    by (simp add: analyze_file_read_error)
qed

lemma dir_thread_matcher: "make_matcher rc dir_thread = Inr (Literal ''error'')"
  by (simp add: make_matcher_def dir_thread_def)

lemma chunk_size_pos: "1 \<le> chunk_size"
  by (simp add: chunk_size_def)

lemma records_text_one:
  "numbered_matches (Literal ''error'') 0 (spec_lines text_one) = [''1: error one'']"
  by code_simp

lemma records_text_two:
  "numbered_matches (Literal ''error'') 0 (spec_lines text_two) = [''2: error two'']"
  by code_simp

text \<open>
  Two readable files around one that cannot be opened: the matches of the two, after the
  finished signal. A file whose third read raises: the match of its second line is kept.
\<close>

theorem C6_file_errors_not_fatal_witness:
  "finished_results (run no_regex (dir_fs mixed_dir) dir_thread None) =
     Some [''1: error one'', ''2: error two'']
   \<and> analyze_file no_regex 9 literal_error (Some (RegularFile unterminated (Some 2))) None =
     ([''2: BETA error''], None)"
proof -
  have d: "is_directory dir_thread" by (simp add: dir_thread_def)
  have mm: "make_matcher no_regex literal_error = Inr (Literal ''error'')"
    by (simp add: make_matcher_def literal_error_def)
  have len: "length unterminated = 27" by (simp add: unterminated_def)
  have h: "1 \<le> (9::nat) \<and> make_matcher no_regex literal_error = Inr (Literal ''error'')
      \<and> 2 \<le> chunk_count 9 (length unterminated)"
    by (simp add: mm len chunk_count_def)
  have fl: "filter (\<lambda>f. is_regular (snd f)) (log_files (dir_fs mixed_dir (file_path dir_thread))) =
      [(''a.log'', RegularFile text_one None), (''c.log'', RegularFile text_two None)]"
    by code_simp
  have a: "concat (map (\<lambda>f. fst (analyze_file no_regex chunk_size dir_thread (Some (snd f)) None))
      (filter (\<lambda>f. is_regular (snd f)) (log_files (dir_fs mixed_dir (file_path dir_thread))))) =
      [''1: error one'', ''2: error two'']"
    unfolding fl
    by (simp add: analyze_file_readable[OF chunk_size_pos dir_thread_matcher]
        records_text_one records_text_two)
  have b: "numbered_matches (Literal ''error'') 0
      (butlast (split_on newline (take (2 * 9) unterminated))) = [''2: BETA error'']"
    by code_simp
  note x = C6_file_errors_not_fatal[where th = dir_thread, where rc = no_regex,
      where csize = chunk_size, where fs = "dir_fs mixed_dir", THEN conjunct1, THEN mp, OF d]
  note y = C6_file_errors_not_fatal[where th = literal_error, where rc = no_regex,
      where csize = 9, where m = "Literal ''error''", where r = 2, where content = unterminated,
      THEN conjunct2, THEN mp, OF h]
  show ?thesis
    by (simp only: run_def x y a b simp_thms)
qed

lemma ends_with_iff: "ends_with suffix s \<longleftrightarrow> (\<exists>pre. s = pre @ suffix)"
proof -
  have "ends_with suffix s \<longleftrightarrow> (\<exists>post. rev s = rev suffix @ post)"
    by (simp add: ends_with_def starts_with_iff)
  also have "\<dots> \<longleftrightarrow> (\<exists>pre. s = pre @ suffix)"
  proof
    assume "\<exists>post. rev s = rev suffix @ post"
    then obtain post where "rev s = rev suffix @ post" ..
    then have "rev (rev s) = rev (rev suffix @ post)" by simp
    then have "s = rev post @ suffix" by simp
    then show "\<exists>pre. s = pre @ suffix" ..
  next
    assume "\<exists>pre. s = pre @ suffix"
    then obtain pre where "s = pre @ suffix" ..
    then have "rev s = rev suffix @ rev pre" by simp
    then show "\<exists>post. rev s = rev suffix @ post" ..
  qed
  finally show ?thesis .
qed

lemma run_sized_never_stopped:
  assumes "is_directory th" and "fs (file_path th) = Some (Directory entries)"
  shows "run_sized rc csize fs th None =
     map (\<lambda>f. Progress (''Processing '' @ fst f @ ''...''))
       (filter (\<lambda>e. ends_with ''.log'' (fst e)) entries
        @ filter (\<lambda>e. ends_with ''.txt'' (fst e)) entries)
     @ [Finished (concat (map (\<lambda>f. fst (analyze_file rc csize th (Some (snd f)) None))
         (filter (\<lambda>e. ends_with ''.log'' (fst e)) entries
          @ filter (\<lambda>e. ends_with ''.txt'' (fst e)) entries)))]"
  using assms
  by (simp add: run_sized_def Let_def scan_files_never_stopped log_files_def glob_ext_def)

text \<open>
  C3, amended. A directory scan that is never stopped visits the immediate entries of the
  directory whose names end in \<open>.log\<close>, in the order in which the directory enumerates
  them, and after them those whose names end in \<open>.txt\<close>, again in enumeration order. It
  announces each visit and finishes with the concatenation of the records of the visited
  entries in that order. Entries of subdirectories are not visited, and the order is not
  the lexical order of the paths.
\<close>

theorem C3_directory_order:
  assumes "is_directory th" and "fs (file_path th) = Some (Directory entries)"
    and "visit = filter (\<lambda>e. ends_with ''.log'' (fst e)) entries
               @ filter (\<lambda>e. ends_with ''.txt'' (fst e)) entries"
  shows "run_sized rc csize fs th None =
     map (\<lambda>f. Progress (''Processing '' @ fst f @ ''...'')) visit
     @ [Finished (concat (map (\<lambda>f. fst (analyze_file rc csize th (Some (snd f)) None)) visit))]"
  unfolding assms(3) using assms(1,2) by (rule run_sized_never_stopped)

lemma nested_dir_visit:
  "filter (\<lambda>e. ends_with ''.log'' (fst e)) nested_dir
   @ filter (\<lambda>e. ends_with ''.txt'' (fst e)) nested_dir =
     [(''b.log'', RegularFile text_two None), (''a.txt'', RegularFile text_one None)]"
  by code_simp

lemma nested_dir_fs: "dir_fs nested_dir (file_path dir_thread) = Some (Directory nested_dir)"
  by (simp add: dir_fs_def dir_thread_def)

lemma dir_thread_directory: "is_directory dir_thread"
  by (simp add: dir_thread_def)

text \<open>
  A directory that enumerates \<open>a.txt\<close>, a subdirectory holding a log file, a file of
  another extension and \<open>b.log\<close>: the scan visits \<open>b.log\<close> and then \<open>a.txt\<close>.
\<close>

theorem C3_directory_order_witness:
  "run no_regex (dir_fs nested_dir) dir_thread None =
     [Progress ''Processing b.log...'', Progress ''Processing a.txt...'',
      Finished [''2: error two'', ''1: error one'']]"
  unfolding run_def
    C3_directory_order[where fs = "dir_fs nested_dir" and th = dir_thread
      and entries = nested_dir, OF dir_thread_directory nested_dir_fs nested_dir_visit[symmetric]]
  by (simp add: analyze_file_readable[OF chunk_size_pos dir_thread_matcher]
      records_text_one records_text_two)

text \<open>
  Against the lexical order: \<open>logs/a.txt\<close> comes before \<open>logs/b.log\<close>, and the scan
  visits \<open>b.log\<close> first.
\<close>

theorem C3_lexical_order_counterexample:
  "run no_regex (dir_fs nested_dir) dir_thread None =
     [Progress ''Processing b.log...'', Progress ''Processing a.txt...'',
      Finished [''2: error two'', ''1: error one'']]
   \<and> path_le ''logs/a.txt'' ''logs/b.log'' \<and> \<not> path_le ''logs/b.log'' ''logs/a.txt''"
proof -
  have "run no_regex (dir_fs nested_dir) dir_thread None =
     [Progress ''Processing b.log...'', Progress ''Processing a.txt...'',
      Finished [''2: error two'', ''1: error one'']]"
    unfolding run_def
      run_sized_never_stopped[where fs = "dir_fs nested_dir" and th = dir_thread
        and entries = nested_dir, OF dir_thread_directory nested_dir_fs] nested_dir_visit
    by (simp add: analyze_file_readable[OF chunk_size_pos dir_thread_matcher]
        records_text_one records_text_two)
  moreover have "path_le ''logs/a.txt'' ''logs/b.log''" by code_simp
  moreover have "\<not> path_le ''logs/b.log'' ''logs/a.txt''" by code_simp
  ultimately show ?thesis by blast
qed

section \<open>Stopping a directory scan\<close>




















section \<open>A pattern that does not compile\<close>

lemma scan_files_bad_pattern:
  "make_matcher rc th = Inl e \<Longrightarrow> fst (scan_files rc csize th files fl acc) = acc"
  by (induction files arbitrary: fl acc) (simp_all add: Let_def analyze_file_bad_pattern)

lemma run_sized_bad_pattern:
  "make_matcher rc th = Inl e \<Longrightarrow> finished_results (run_sized rc csize fs th fl) = Some []"
  by (simp add: run_sized_def Let_def scan_files_bad_pattern analyze_file_bad_pattern
      finished_results_def)

text \<open>
  C2, amended. A regular expression that does not compile does not keep the job from
  starting: the click starts the thread as for any other pattern. \<^verbatim>\<open>re.compile\<close> raises
  inside \<^verbatim>\<open>_analyze_file\<close>, once per file and before the file is opened; the exception is
  caught there, so that every file contributes no record and its scan reads the stop
  flag not once.
  In single-file and in directory mode the job ends with the finished signal and an empty
  result list, shown as the message that nothing matched.
\<close>

theorem C2_bad_pattern_no_error:
  assumes "regex_checkbox scr" and "rc (pattern_input scr) = None"
    and "path_input scr \<noteq> []" and "pattern_input scr \<noteq> []"
    and "path_exists fs (path_input scr)"
    and "th = \<lparr>file_path = path_input scr, pattern = pattern_input scr, is_regex = True,
               is_directory = isdir fs (path_input scr)\<rparr>"
  shows "snd (on_search_clicked fs scr) = Some th
    \<and> status_label (fst (on_search_clicked fs scr)) = ''Analyzing...''
    \<and> analyze_file rc csize th nd fl = ([], fl)
    \<and> finished_results (run_sized rc csize fs th fl) = Some []
    \<and> status_label (on_analysis_finished [] (fst (on_search_clicked fs scr))) =
        ''Analysis complete: No matches found''"
proof -
  have mm: "make_matcher rc th = Inl ReError"
    using assms(2,6) by (simp add: make_matcher_def)
  have s: "snd (on_search_clicked fs scr) = Some th"
    "status_label (fst (on_search_clicked fs scr)) = ''Analyzing...''"
    using assms(1,3,4,5,6) by (simp_all add: on_search_clicked_def Let_def)
  have f: "status_label (on_analysis_finished [] (fst (on_search_clicked fs scr))) =
        ''Analysis complete: No matches found''"
    by (simp add: on_analysis_finished_def)
  from s f analyze_file_bad_pattern[OF mm] run_sized_bad_pattern[OF mm] show ?thesis by simp
qed

text \<open>A directory searched with the pattern \<open>(error\<close>.\<close>

theorem C2_bad_pattern_no_error_witness:
  "snd (on_search_clicked (dir_fs mixed_dir)
          (idle_screen\<lparr>path_input := ''logs'', pattern_input := ''(error'', regex_checkbox := True\<rparr>)) =
     Some \<lparr>file_path = ''logs'', pattern = ''(error'', is_regex = True, is_directory = True\<rparr>
   \<and> finished_results (run no_regex (dir_fs mixed_dir)
        \<lparr>file_path = ''logs'', pattern = ''(error'', is_regex = True, is_directory = True\<rparr> None) =
     Some []
   \<and> analyze_file no_regex chunk_size
        \<lparr>file_path = ''logs'', pattern = ''(error'', is_regex = True, is_directory = True\<rparr>
        (Some (RegularFile text_one None)) (Some 5) = ([], Some 5)"
proof -
  define scr where "scr = idle_screen\<lparr>path_input := ''logs'', pattern_input := ''(error'',
      regex_checkbox := True\<rparr>"
  define th where "th = \<lparr>file_path = ''logs'', pattern = ''(error'', is_regex = True,
      is_directory = True\<rparr>"
  have 1: "regex_checkbox scr" and 2: "no_regex (pattern_input scr) = None"
    and 3: "path_input scr \<noteq> []" and 4: "pattern_input scr \<noteq> []"
    and 5: "path_exists (dir_fs mixed_dir) (path_input scr)"
    and 6: "th = \<lparr>file_path = path_input scr, pattern = pattern_input scr, is_regex = True,
               is_directory = isdir (dir_fs mixed_dir) (path_input scr)\<rparr>"
    by (simp_all add: scr_def th_def idle_screen_def no_regex_def path_exists_def dir_fs_def
        isdir_def)
  note t = C2_bad_pattern_no_error[where rc = no_regex, where fs = "dir_fs mixed_dir",
      where scr = scr, where th = th, where csize = chunk_size, OF 1 2 3 4 5 6]
  have a: "snd (on_search_clicked (dir_fs mixed_dir) scr) = Some th"
    using t by simp
  have b: "finished_results (run no_regex (dir_fs mixed_dir) th None) = Some []"
    unfolding run_def using t[where fl = None] by simp
  have c: "analyze_file no_regex chunk_size th (Some (RegularFile text_one None)) (Some 5) =
      ([], Some 5)"
    using t[where nd = "Some (RegularFile text_one None)" and fl = "Some 5"] by simp
  from a b c show ?thesis unfolding scr_def th_def by simp
qed

lemma records_sample_text:
  "numbered_matches (Literal ''error'') 0 (spec_lines sample_text) = [''2: BETA error'']"
  by code_simp

text \<open>
  Against the failure at start: the click with the pattern \<open>(error\<close> starts the thread and
  sets the status to \<open>Analyzing...\<close>; the thread finishes with no record and the screen
  reports that nothing matched, in a file where the literal \<open>error\<close> has a match.
\<close>

theorem C2_invalid_pattern_counterexample:
  "on_search_clicked one_file_fs regex_screen =
     (regex_screen\<lparr>analyzer_thread := Some bad_thread, search_enabled := False,
        cancel_enabled := True, status_label := ''Analyzing...'',
        results_text := ''Searching...'' @ [newline]\<rparr>, Some bad_thread)
   \<and> no_regex (pattern bad_thread) = None
   \<and> run no_regex one_file_fs bad_thread None = [Progress ''Processing file...'', Finished []]
   \<and> status_label (on_analysis_finished [] (fst (on_search_clicked one_file_fs regex_screen))) =
       ''Analysis complete: No matches found''
   \<and> run no_regex one_file_fs literal_error None =
       [Progress ''Processing file...'', Finished [''2: BETA error'']]"
proof -
  have a: "on_search_clicked one_file_fs regex_screen =
     (regex_screen\<lparr>analyzer_thread := Some bad_thread, search_enabled := False,
        cancel_enabled := True, status_label := ''Analyzing...'',
        results_text := ''Searching...'' @ [newline]\<rparr>, Some bad_thread)"
    by (simp add: on_search_clicked_def regex_screen_def idle_screen_def one_file_fs_def
        path_exists_def isdir_def bad_thread_def Let_def)
  have mm: "make_matcher no_regex bad_thread = Inl ReError"
    by (simp add: make_matcher_def bad_thread_def no_regex_def)
  have b: "run no_regex one_file_fs bad_thread None = [Progress ''Processing file...'', Finished []]"
    by (simp add: run_def run_sized_def bad_thread_def analyze_file_bad_pattern[OF mm[unfolded bad_thread_def]])
  have c: "status_label (on_analysis_finished [] (fst (on_search_clicked one_file_fs regex_screen))) =
       ''Analysis complete: No matches found''"
    by (simp add: on_analysis_finished_def)
  have ml: "make_matcher no_regex literal_error = Inr (Literal ''error'')"
    by (simp add: make_matcher_def literal_error_def)
  have fsl: "one_file_fs (file_path literal_error) = Some (RegularFile sample_text None)"
    by (simp add: one_file_fs_def literal_error_def sample_text_def)
  have nd: "\<not> is_directory literal_error" by (simp add: literal_error_def)
  have d: "run no_regex one_file_fs literal_error None =
       [Progress ''Processing file...'', Finished [''2: BETA error'']]"
    by (simp add: run_def run_sized_def nd fsl analyze_file_readable[OF chunk_size_pos ml]
        records_sample_text)
  from a b c d show ?thesis by (simp add: no_regex_def)
qed

end
